theory Spec2Isabelle
  imports Complex_Main
begin

section \<open>Errors\<close>

text \<open>
  The exceptions the two scripts can raise, as values. A \<open>ValueError\<close> carries its
  message, as the Python exception does; the other exceptions are told apart by class only.
\<close>

datatype py_error =
    ValueError string
  | IndexError
  | AssertionError
  | StopIteration

section \<open>run\_debiasing.py: \_truncate\_seq\_pair\<close>

text \<open>
  The loop of \<open>_truncate_seq_pair(tokens_a, tokens_b, max_length)\<close>. The two lists are
  mutated in place in the source; the model returns them. \<open>list.pop()\<close> removes the last
  element (\<open>butlast\<close>) and raises \<open>IndexError\<close> on an empty list. In the first branch
  \<open>tokens_a\<close> is longer than \<open>tokens_b\<close>, hence not empty, so only the pop of
  \<open>tokens_b\<close> can raise.
\<close>

function truncate_seq_pair ::
  "'a list \<Rightarrow> 'a list \<Rightarrow> int \<Rightarrow> py_error + ('a list \<times> 'a list)" where
  "truncate_seq_pair tokens_a tokens_b max_length =
     (let total_length = int (length tokens_a + length tokens_b) in
      if total_length \<le> max_length then Inr (tokens_a, tokens_b)
      else if length tokens_a > length tokens_b
        then truncate_seq_pair (butlast tokens_a) tokens_b max_length
      else if tokens_b = [] then Inl IndexError
        else truncate_seq_pair tokens_a (butlast tokens_b) max_length)"
  by pat_completeness auto
termination
  by (relation "measure (\<lambda>(a, b, m). length a + length b)") auto

declare truncate_seq_pair.simps [simp del]

text \<open>
  The same loop, recording the pair of lists at the head of every iteration (the state
  the loop condition is tested on). The first entry is the input; when the loop leaves
  through \<open>break\<close> the last entry is the result.
\<close>

function truncate_states :: "'a list \<Rightarrow> 'a list \<Rightarrow> int \<Rightarrow> ('a list \<times> 'a list) list" where
  "truncate_states tokens_a tokens_b max_length =
     (let total_length = int (length tokens_a + length tokens_b) in
      if total_length \<le> max_length then [(tokens_a, tokens_b)]
      else if length tokens_a > length tokens_b
        then (tokens_a, tokens_b) # truncate_states (butlast tokens_a) tokens_b max_length
      else if tokens_b = [] then [(tokens_a, tokens_b)]
        else (tokens_a, tokens_b) # truncate_states tokens_a (butlast tokens_b) max_length)"
  by pat_completeness auto
termination
  by (relation "measure (\<lambda>(a, b, m). length a + length b)") auto

declare truncate_states.simps [simp del]

text \<open>
  One removal as the specification describes it, between the state before and the state
  after: from the longer list, and from the second one when the lengths are equal.
\<close>

definition removal :: "('a list \<times> 'a list) \<Rightarrow> ('a list \<times> 'a list) \<Rightarrow> bool" where
  "removal s t =
     ((length (fst s) > length (snd s) \<longrightarrow> t = (butlast (fst s), snd s)) \<and>
      (length (fst s) < length (snd s) \<longrightarrow> t = (fst s, butlast (snd s))) \<and>
      (length (fst s) = length (snd s) \<longrightarrow> snd s \<noteq> [] \<and> t = (fst s, butlast (snd s))))"

section \<open>run\_debiasing.py: the example reader\<close>

text \<open>
  \<open>SwagExample\<close>. The constructor stores the four endings as the list
  \<open>[ending_0, ending_1, ending_2, ending_3]\<close>; \<open>label\<close> and \<open>protected_attr\<close> are
  \<open>None\<close> outside training.
\<close>

record SwagExample =
  swag_id :: string
  context_sentence :: string
  start_ending :: string
  ending_0 :: string
  ending_1 :: string
  ending_2 :: string
  ending_3 :: string
  label :: "int option"
  protected_attr :: "int option"

definition endings :: "SwagExample \<Rightarrow> string list" where
  "endings ex = [ending_0 ex, ending_1 ex, ending_2 ex, ending_3 ex]"

text \<open>Sequencing of computations that may raise: the first exception wins.\<close>

definition bind_err :: "'e + 'a \<Rightarrow> ('a \<Rightarrow> 'e + 'b) \<Rightarrow> 'e + 'b" where
  "bind_err r f = (case r of Inl e \<Rightarrow> Inl e | Inr x \<Rightarrow> f x)"

text \<open>\<open>xs[i]\<close> for a non-negative literal index.\<close>

definition py_index :: "'a list \<Rightarrow> nat \<Rightarrow> py_error + 'a" where
  "py_index xs i = (if i < length xs then Inr (xs ! i) else Inl IndexError)"

text \<open>
  The message of the \<open>ValueError\<close> raised by \<open>read_swag_examples\<close>, and the message
  of the one raised by the builtin \<open>int\<close> on a cell that is no integer literal (the
  builtin quotes the cell through \<open>repr\<close>; plain quotes stand for it here).
\<close>

definition label_column_message :: string where
  "label_column_message = ''For training, the input file must contain a label column.''"

definition invalid_literal_message :: "string \<Rightarrow> string" where
  "invalid_literal_message cell =
     ''invalid literal for int() with base 10: '' @ [CHR 0x27] @ cell @ [CHR 0x27]"

text \<open>
  \<open>int(cell)\<close>. The builtin's parser is a parameter \<open>parse\<close> of the model, \<open>None\<close>
  where the builtin rejects the string.
\<close>

definition py_int :: "(string \<Rightarrow> int option) \<Rightarrow> string \<Rightarrow> py_error + int" where
  "py_int parse cell =
     (case parse cell of
        None \<Rightarrow> Inl (ValueError (invalid_literal_message cell))
      | Some n \<Rightarrow> Inr n)"

text \<open>
  One element of the list comprehension of \<open>read_swag_examples\<close>: the keyword arguments
  are evaluated in the order they are written, then the example is constructed.
\<close>

definition make_example ::
  "(string \<Rightarrow> int option) \<Rightarrow> bool \<Rightarrow> string list \<Rightarrow> py_error + SwagExample" where
  "make_example parse is_training line =
     bind_err (py_index line 2) (\<lambda>sid.
     bind_err (py_index line 4) (\<lambda>ctx.
     bind_err (py_index line 5) (\<lambda>start.
     bind_err (py_index line 7) (\<lambda>e0.
     bind_err (py_index line 8) (\<lambda>e1.
     bind_err (py_index line 9) (\<lambda>e2.
     bind_err (py_index line 10) (\<lambda>e3.
     bind_err (if is_training
               then bind_err (py_index line 11) (\<lambda>c. bind_err (py_int parse c) (\<lambda>n. Inr (Some n)))
               else Inr None) (\<lambda>lab.
     bind_err (if is_training
               then bind_err (py_index line 12) (\<lambda>c. bind_err (py_int parse c) (\<lambda>n. Inr (Some n)))
               else Inr None) (\<lambda>prot.
     Inr \<lparr> swag_id = sid, context_sentence = ctx, start_ending = start,
           ending_0 = e0, ending_1 = e1, ending_2 = e2, ending_3 = e3,
           label = lab, protected_attr = prot \<rparr>)))))))))"

text \<open>
  The list comprehension over \<open>lines[1:]\<close>. When an element raises, the error is
  returned together with the examples that had been constructed before it.
\<close>

fun build_examples ::
  "(string \<Rightarrow> int option) \<Rightarrow> bool \<Rightarrow> string list list
     \<Rightarrow> (py_error \<times> SwagExample list) + SwagExample list" where
  "build_examples parse is_training [] = Inr []"
| "build_examples parse is_training (line # rest) =
     (case make_example parse is_training line of
        Inl e \<Rightarrow> Inl (e, [])
      | Inr ex \<Rightarrow>
          (case build_examples parse is_training rest of
             Inl (e, constructed) \<Rightarrow> Inl (e, ex # constructed)
           | Inr exs \<Rightarrow> Inr (ex # exs)))"

text \<open>
  \<open>read_swag_examples\<close> on the rows the csv reader yields. \<open>lines[0]\<close> raises
  \<open>IndexError\<close> on a file without rows; \<open>and\<close> evaluates it in training mode only.
\<close>

definition read_swag_examples ::
  "(string \<Rightarrow> int option) \<Rightarrow> string list list \<Rightarrow> bool
     \<Rightarrow> (py_error \<times> SwagExample list) + SwagExample list" where
  "read_swag_examples parse lines is_training =
     (if is_training then
        (case lines of
           [] \<Rightarrow> Inl (IndexError, [])
         | header # rest \<Rightarrow>
             if ''label'' \<notin> set header
             then Inl (ValueError label_column_message, [])
             else build_examples parse is_training rest)
      else build_examples parse is_training (tl lines))"

section \<open>run\_debiasing.py: the feature encoder\<close>

text \<open>
  The tuple appended to \<open>choices_features\<close>, and the dictionary \<open>InputFeatures\<close> keeps of
  it (the two token lists are dropped there).
\<close>

record choice_tuple =
  t_tokens :: "string list"
  t_input_ids :: "int list"
  t_input_mask :: "int list"
  t_segment_ids :: "int list"
  t_vp_tokens :: "string list"
  t_vp_input_ids :: "int list"
  t_vp_input_mask :: "int list"

record choice_features =
  input_ids :: "int list"
  input_mask :: "int list"
  segment_ids :: "int list"
  vp_input_ids :: "int list"
  vp_input_mask :: "int list"

record InputFeatures =
  example_id :: string
  choices_features :: "choice_features list"
  f_label :: "int option"
  f_protected_attr :: "int option"
  f_endings :: "string list"

definition InputFeatures_init ::
  "string \<Rightarrow> choice_tuple list \<Rightarrow> int option \<Rightarrow> int option \<Rightarrow> string list \<Rightarrow> InputFeatures" where
  "InputFeatures_init eid choices lab prot ends =
     \<lparr> example_id = eid,
       choices_features =
         map (\<lambda>c. \<lparr> input_ids = t_input_ids c, input_mask = t_input_mask c,
                     segment_ids = t_segment_ids c, vp_input_ids = t_vp_input_ids c,
                     vp_input_mask = t_vp_input_mask c \<rparr>) choices,
       f_label = lab, f_protected_attr = prot, f_endings = ends \<rparr>"

text \<open>
  \<open>int(max_seq_length / 2)\<close>: true division, then truncation towards zero.
\<close>

definition half_length :: "int \<Rightarrow> int" where
  "half_length max_seq_length =
     (if 0 \<le> max_seq_length then max_seq_length div 2 else - ((- max_seq_length) div 2))"

text \<open>\<open>[0] * n\<close>: the empty list when \<open>n\<close> is negative.\<close>

definition zeros :: "int \<Rightarrow> int list" where
  "zeros n = replicate (nat n) 0"

text \<open>
  The body of the loop over the endings of one example. The tokenizer is external: its
  \<open>tokenize\<close> is the parameter \<open>tokenize\<close>, and \<open>convert_tokens_to_ids\<close> looks every
  token up in the vocabulary, the parameter \<open>vocab\<close>. The five \<open>assert\<close> statements
  raise \<open>AssertionError\<close> in the order of the source.
\<close>

definition encode_choice ::
  "(string \<Rightarrow> string list) \<Rightarrow> (string \<Rightarrow> int) \<Rightarrow> int \<Rightarrow> string list \<Rightarrow> string list \<Rightarrow> string
     \<Rightarrow> py_error + choice_tuple" where
  "encode_choice tokenize vocab max_seq_length context_tokens start_ending_tokens ending =
     (let context_tokens_choice = context_tokens;
          vp_token = tokenize ending;
          ending_tokens = start_ending_tokens @ vp_token
      in bind_err (truncate_seq_pair context_tokens_choice ending_tokens (max_seq_length - 3))
       (\<lambda>(context_tokens_choice, ending_tokens).
        let vp_tokens = [''[CLS]''] @ vp_token @ [''[SEP]''];
            tokens = [''[CLS]''] @ context_tokens_choice @ [''[SEP]''] @ ending_tokens @ [''[SEP]''];
            segment_ids0 = replicate (length context_tokens_choice + 2) 0
                           @ replicate (length ending_tokens + 1) 1;
            input_ids0 = map vocab tokens;
            input_mask0 = replicate (length input_ids0) 1;
            vp_input_ids0 = map vocab vp_tokens;
            vp_input_mask0 = replicate (length vp_input_ids0) 1;
            padding = zeros (max_seq_length - int (length input_ids0));
            input_ids1 = input_ids0 @ padding;
            input_mask1 = input_mask0 @ padding;
            segment_ids1 = segment_ids0 @ padding;
            vp_padding = zeros (half_length max_seq_length - int (length vp_input_ids0));
            vp_input_ids1 = vp_input_ids0 @ vp_padding;
            vp_input_mask1 = vp_input_mask0 @ vp_padding
        in if int (length input_ids1) \<noteq> max_seq_length then Inl AssertionError
           else if int (length input_mask1) \<noteq> max_seq_length then Inl AssertionError
           else if int (length segment_ids1) \<noteq> max_seq_length then Inl AssertionError
           else if int (length vp_input_ids1) \<noteq> half_length max_seq_length then Inl AssertionError
           else if int (length vp_input_mask1) \<noteq> half_length max_seq_length then Inl AssertionError
           else Inr \<lparr> t_tokens = tokens, t_input_ids = input_ids1, t_input_mask = input_mask1,
                      t_segment_ids = segment_ids1, t_vp_tokens = vp_tokens,
                      t_vp_input_ids = vp_input_ids1, t_vp_input_mask = vp_input_mask1 \<rparr>))"

text \<open>A loop that appends one result per element and stops at the first exception.\<close>

fun map_err :: "('a \<Rightarrow> 'e + 'b) \<Rightarrow> 'a list \<Rightarrow> 'e + 'b list" where
  "map_err f [] = Inr []"
| "map_err f (x # xs) =
     (case f x of
        Inl e \<Rightarrow> Inl e
      | Inr y \<Rightarrow> (case map_err f xs of Inl e \<Rightarrow> Inl e | Inr ys \<Rightarrow> Inr (y # ys)))"

definition encode_example ::
  "(string \<Rightarrow> string list) \<Rightarrow> (string \<Rightarrow> int) \<Rightarrow> int \<Rightarrow> SwagExample \<Rightarrow> py_error + InputFeatures" where
  "encode_example tokenize vocab max_seq_length example =
     (let context_tokens = tokenize (context_sentence example);
          start_ending_tokens = tokenize (start_ending example)
      in bind_err
           (map_err (encode_choice tokenize vocab max_seq_length context_tokens start_ending_tokens)
              (endings example))
           (\<lambda>choices. Inr (InputFeatures_init (swag_id example) choices (label example)
                              (protected_attr example) (endings example))))"

text \<open>\<open>is_training\<close> only selects what is logged.\<close>

definition convert_examples_to_features ::
  "SwagExample list \<Rightarrow> (string \<Rightarrow> string list) \<Rightarrow> (string \<Rightarrow> int) \<Rightarrow> int \<Rightarrow> bool
     \<Rightarrow> py_error + InputFeatures list" where
  "convert_examples_to_features examples tokenize vocab max_seq_length is_training =
     map_err (encode_example tokenize vocab max_seq_length) examples"

text \<open>
  The condition on the endings: each ending alone has at most
  \<open>max_seq_length // 2 - 2\<close> tokens (\<open>div\<close> on \<open>int\<close> is Python's \<open>//\<close>).
\<close>

definition endings_fit :: "(string \<Rightarrow> string list) \<Rightarrow> int \<Rightarrow> SwagExample list \<Rightarrow> bool" where
  "endings_fit tokenize max_seq_length examples =
     (\<forall>ex \<in> set examples. \<forall>e \<in> set (endings ex).
        int (length (tokenize e)) \<le> max_seq_length div 2 - 2)"

text \<open>The lengths every encoded choice of a feature is asserted to have.\<close>

definition choice_lengths_ok :: "int \<Rightarrow> choice_features \<Rightarrow> bool" where
  "choice_lengths_ok max_seq_length c =
     (int (length (input_ids c)) = max_seq_length \<and>
      int (length (input_mask c)) = max_seq_length \<and>
      int (length (segment_ids c)) = max_seq_length \<and>
      int (length (vp_input_ids c)) = max_seq_length div 2 \<and>
      int (length (vp_input_mask c)) = max_seq_length div 2)"

definition feature_ok :: "int \<Rightarrow> InputFeatures \<Rightarrow> bool" where
  "feature_ok max_seq_length f =
     (length (choices_features f) = 4 \<and>
      (\<forall>c \<in> set (choices_features f). choice_lengths_ok max_seq_length c))"

section \<open>run\_debiasing.py: tensors of the training and evaluation loops\<close>

text \<open>
  Tensors are nested lists; floating-point values are idealised as reals. An operation of
  the tensor library that raises (a reduction over an empty dimension, an index out of
  range, shapes that do not broadcast) returns \<open>None\<close>.

  \<open>torch.max(row)\<close> with its index: a scan that keeps the running maximum \<open>m\<close>, found at
  index \<open>i\<close>, while \<open>k\<close> is the index of the next element; a later element replaces the
  maximum only when strictly greater, so the index is that of the first maximal value.
\<close>

fun max_from :: "real \<Rightarrow> nat \<Rightarrow> nat \<Rightarrow> real list \<Rightarrow> real \<times> nat" where
  "max_from m i k [] = (m, i)"
| "max_from m i k (x # xs) =
     (if m < x then max_from x k (Suc k) xs else max_from m i (Suc k) xs)"

definition torch_max :: "real list \<Rightarrow> (real \<times> nat) option" where
  "torch_max row = (case row of [] \<Rightarrow> None | x # xs \<Rightarrow> Some (max_from x 0 1 xs))"

definition torch_argmax :: "real list \<Rightarrow> nat option" where
  "torch_argmax row = map_option snd (torch_max row)"

text \<open>What it means for \<open>i\<close> to be the argmax of a row (the first one, on ties).\<close>

definition is_argmax :: "real list \<Rightarrow> nat \<Rightarrow> bool" where
  "is_argmax row i =
     (i < length row \<and> (\<forall>j < length row. row ! j \<le> row ! i) \<and> (\<forall>j < i. row ! j < row ! i))"

text \<open>A three-dimensional tensor of shape \<open>b \<times> c \<times> n\<close>.\<close>

definition tensor_shape :: "'a list list list \<Rightarrow> nat \<Rightarrow> nat \<Rightarrow> nat \<Rightarrow> bool" where
  "tensor_shape t b c n =
     (length t = b \<and> (\<forall>m \<in> set t. length m = c \<and> (\<forall>r \<in> set m. length r = n)))"

text \<open>
  \<open>outputs == labels\<close> on two one-dimensional tensors: elementwise on equal sizes, a
  tensor of size one is broadcast, other sizes raise.
\<close>

definition tensor_eq :: "int list \<Rightarrow> int list \<Rightarrow> bool list option" where
  "tensor_eq xs ys =
     (if length xs = length ys then Some (map (\<lambda>(x, y). x = y) (zip xs ys))
      else if length xs = 1 then Some (map (\<lambda>y. hd xs = y) ys)
      else if length ys = 1 then Some (map (\<lambda>x. x = hd ys) xs)
      else None)"

definition accuracy :: "real list list \<Rightarrow> int list \<Rightarrow> int option" where
  "accuracy out labels =
     (case those (map torch_argmax out) of
        None \<Rightarrow> None
      | Some outputs \<Rightarrow>
          map_option (\<lambda>eqs. sum_list (map (\<lambda>b. if b then 1 else 0) eqs))
            (tensor_eq (map int outputs) labels))"

text \<open>
  \<open>softmax\<close> of a one-dimensional tensor (the implicit dimension is 0 there), and
  \<open>.long()\<close>, which truncates towards zero.
\<close>

definition softmax :: "real list \<Rightarrow> real list" where
  "softmax xs = map (\<lambda>x. exp x / sum_list (map exp xs)) xs"

definition to_long :: "real \<Rightarrow> int" where
  "to_long r = (if 0 \<le> r then \<lfloor>r\<rfloor> else \<lceil>r\<rceil>)"

text \<open>\<open>t.size(2)\<close> of a three-dimensional tensor with entries.\<close>

definition size2 :: "'a list list list \<Rightarrow> nat" where
  "size2 t = (case t of (r # _) # _ \<Rightarrow> length r | _ \<Rightarrow> 0)"

text \<open>
  \<open>predicted_vps.view(-1, 1).repeat(1, n).view([-1, 1, n])\<close>: every index repeated along
  the last dimension, in a tensor of shape \<open>batch \<times> 1 \<times> n\<close>.
\<close>

definition expand_index :: "nat \<Rightarrow> nat list \<Rightarrow> nat list list list" where
  "expand_index n predicted = map (\<lambda>i. [replicate n i]) predicted"

text \<open>
  \<open>torch.gather(input, dim=1, index)\<close>:
  \<open>out[b][i][j] = input[b][index[b][i][j] ][j]\<close>, with the shape of \<open>index\<close>.
\<close>

definition gather_row :: "int list list \<Rightarrow> nat list \<Rightarrow> int list option" where
  "gather_row inp idx_row =
     those (map (\<lambda>(k, j). if k < length inp \<and> j < length (inp ! k)
                           then Some (inp ! k ! j) else None)
              (zip idx_row [0..<length idx_row]))"

definition gather_dim1 :: "int list list list \<Rightarrow> nat list list list \<Rightarrow> int list list list option" where
  "gather_dim1 inp index =
     (if length index \<noteq> length inp then None
      else those (map (\<lambda>(inp_b, idx_b). those (map (gather_row inp_b) idx_b)) (zip inp index)))"

text \<open>The gather followed by \<open>.view([batch, -1])\<close>, as both loops do it.\<close>

definition gather_view :: "int list list list \<Rightarrow> nat list list list \<Rightarrow> int list list option" where
  "gather_view t predicted_vps = map_option (map concat) (gather_dim1 t predicted_vps)"

text \<open>
  The evaluation loop from the predictor's logits to the adversary's inputs:
  \<open>torch.argmax(logits_pred, dim=1)\<close>, the index tensor, the two gathers.
\<close>

definition eval_select ::
  "real list list \<Rightarrow> int list list list \<Rightarrow> int list list list
     \<Rightarrow> (int list list \<times> int list list) option" where
  "eval_select logits_pred vp_ids vp_mask =
     (case those (map torch_argmax logits_pred) of
        None \<Rightarrow> None
      | Some predicted \<Rightarrow>
          (let predicted_vps = expand_index (size2 vp_ids) predicted in
           case gather_view vp_ids predicted_vps of
             None \<Rightarrow> None
           | Some ids \<Rightarrow>
               (case gather_view vp_mask predicted_vps of
                  None \<Rightarrow> None
                | Some msk \<Rightarrow> Some (ids, msk))))"

text \<open>
  The training loop from the predictor's logits to the adversary's inputs:
  \<open>torch.max(logits, dim=1)\<close> gives one maximal logit and its index per example; the
  softmax is taken of the tensor of those maxima, one entry per example of the batch;
  the result, times 100 and truncated, is concatenated in front of the gathered ids, and
  \<open>0 * max_prob + 1\<close> in front of the gathered mask.
\<close>

definition train_select ::
  "real list list \<Rightarrow> int list list list \<Rightarrow> int list list list
     \<Rightarrow> (int list list \<times> int list list) option" where
  "train_select logits vp_ids vp_mask =
     (case those (map torch_max logits) of
        None \<Rightarrow> None
      | Some maxima \<Rightarrow>
          (let max_logit = map fst maxima;
               predicted = map snd maxima;
               max_prob = map (\<lambda>p. [to_long (100 * p)]) (softmax max_logit);
               predicted_vps = expand_index (size2 vp_ids) predicted in
           case gather_view vp_ids predicted_vps of
             None \<Rightarrow> None
           | Some ids \<Rightarrow>
               (case gather_view vp_mask predicted_vps of
                  None \<Rightarrow> None
                | Some msk \<Rightarrow>
                    Some (map (\<lambda>(c, row). c @ row) (zip max_prob ids),
                          map (\<lambda>(c, row). c @ row)
                            (zip (map (map (\<lambda>p. 0 * p + 1)) max_prob) msk)))))"

text \<open>
  The value the specification describes for the leading position: the maximum softmax
  probability of one example's per-choice logits, as an integer percentage.
\<close>

definition max_softmax_percent :: "real list \<Rightarrow> int" where
  "max_softmax_percent row = to_long (100 * Max (set (softmax row)))"

subsection \<open>The combined objective\<close>

record train_args =
  n_gpu :: nat
  fp16 :: bool
  loss_scale :: real
  gradient_accumulation_steps :: int

definition alpha :: real where
  "alpha = 1"

definition tensor_mean :: "real list \<Rightarrow> real list" where
  "tensor_mean l = [sum_list l / real (length l)]"

text \<open>
  The losses of one step between the two forward passes and the backward pass: a loss
  tensor has one entry per replica (one entry on a single device). The result is the
  final \<open>loss_pred\<close>, the final \<open>loss_adv\<close> and the \<open>loss\<close> handed to \<open>backward\<close>.
\<close>

definition step_losses ::
  "train_args \<Rightarrow> real list \<Rightarrow> real list \<Rightarrow> real list \<times> real list \<times> real list" where
  "step_losses args loss_pred0 loss_adv0 =
     (let (loss_pred1, loss_adv1) =
            (if n_gpu args > 1 then (tensor_mean loss_pred0, tensor_mean loss_adv0)
             else (loss_pred0, loss_adv0));
          (loss_pred2, loss_adv2) =
            (if fp16 args \<and> loss_scale args \<noteq> 1
             then (map (\<lambda>x. x * loss_scale args) loss_pred1,
                   map (\<lambda>x. x * loss_scale args) loss_adv1)
             else (loss_pred1, loss_adv1));
          (loss_pred3, loss_adv3) =
            (if gradient_accumulation_steps args > 1
             then (map (\<lambda>x. x / real_of_int (gradient_accumulation_steps args)) loss_pred2,
                   map (\<lambda>x. x / real_of_int (gradient_accumulation_steps args)) loss_adv2)
             else (loss_pred2, loss_adv2));
          loss = map (\<lambda>(p, a). p - alpha * a) (zip loss_pred3 loss_adv3)
      in (loss_pred3, loss_adv3, loss))"

text \<open>
  The losses the two models return, as one value per loss: under \<open>n_gpu > 1\<close> the
  mean over the replicas, otherwise the tensor as it is.
\<close>

definition model_loss :: "train_args \<Rightarrow> real list \<Rightarrow> real list" where
  "model_loss args l = (if n_gpu args > 1 then [sum_list l / real (length l)] else l)"

text \<open>
  The factor the configuration puts on both losses: the loss scale under reduced
  precision (unless it is 1), over the number of accumulation steps (when above 1).
\<close>

definition loss_factor :: "train_args \<Rightarrow> real" where
  "loss_factor args =
     (if fp16 args \<and> loss_scale args \<noteq> 1 then loss_scale args else 1) /
     (if gradient_accumulation_steps args > 1
      then real_of_int (gradient_accumulation_steps args) else 1)"

text \<open>One device, full precision, gradients accumulated over two steps.\<close>

definition accumulating_args :: train_args where
  "accumulating_args =
     \<lparr> n_gpu = 1, fp16 = False, loss_scale = 0, gradient_accumulation_steps = 2 \<rparr>"

section \<open>get\_gender.py\<close>

definition girls :: "string set" where
  "girls = set [''she'', ''She'', ''SHE'', ''her'', ''Her'', ''HER'', ''woman'', ''Woman'',
                ''women'', ''Women'', ''WOMAN'', ''girl'', ''girls'', ''lady'', ''ladys'']"

definition boys :: "string set" where
  "boys = set [''he'', ''He'', ''HE'', ''his'', ''His'', ''HIS'', ''man'', ''Man'', ''men'',
               ''Men'', ''MAN'', ''boy'', ''boys'']"

text \<open>\<open>s.split(" ")\<close>: the pieces between every two occurrences of the separator.\<close>

fun split_at :: "char \<Rightarrow> string \<Rightarrow> string list" where
  "split_at sep [] = [ [] ]"
| "split_at sep (c # cs) =
     (if c = sep then [] # split_at sep cs
      else (c # hd (split_at sep cs)) # tl (split_at sep cs))"

text \<open>
  The loop over the words of one cell: the label \<open>lab\<close> starts as the empty string
  (\<open>None\<close> here) and every word of either set overwrites it.
\<close>

fun scan_words :: "string list \<Rightarrow> int option \<Rightarrow> int option" where
  "scan_words [] lab = lab"
| "scan_words (n # ns) lab =
     (if n \<in> girls then scan_words ns (Some 1)
      else if n \<in> boys then scan_words ns (Some 0)
      else scan_words ns lab)"

text \<open>A cell handed to the csv writer: a string of the input or the integer label.\<close>

datatype cell = Text string | Number int

text \<open>
  The loop over the data rows; \<open>written\<close> is the rows written so far. A row without a
  column 5 raises \<open>IndexError\<close>, which ends the script.
\<close>

fun label_rows :: "string list list \<Rightarrow> cell list list \<Rightarrow> py_error option \<times> cell list list" where
  "label_rows [] written = (None, written)"
| "label_rows (row # rest) written =
     (case py_index row 5 of
        Inl e \<Rightarrow> (Some e, written)
      | Inr np \<Rightarrow>
          (case scan_words (split_at (CHR '' '') np) None of
             None \<Rightarrow> label_rows rest written
           | Some lab \<Rightarrow> label_rows rest (written @ [map Text row @ [Number lab] ])))"

text \<open>
  The script on the rows the csv reader yields: \<open>next\<close> takes the header (raising
  \<open>StopIteration\<close> on an empty file), which is written with \<open>gender\<close> appended.
\<close>

definition get_gender :: "string list list \<Rightarrow> py_error option \<times> cell list list" where
  "get_gender rows =
     (case rows of
        [] \<Rightarrow> (Some StopIteration, [])
      | row # rest \<Rightarrow> label_rows rest [map Text row @ [Text ''gender''] ])"

text \<open>
  The words the specification speaks of: the maximal runs of non-whitespace characters
  of a string (what \<open>s.split()\<close> returns).
\<close>

definition is_whitespace :: "char \<Rightarrow> bool" where
  "is_whitespace c = (c \<in> set [CHR '' '', CHR 0x09, CHR 0x0A, CHR 0x0B, CHR 0x0C, CHR 0x0D])"

fun words_from :: "string \<Rightarrow> string \<Rightarrow> string list" where
  "words_from cur [] = (if cur = [] then [] else [cur])"
| "words_from cur (c # cs) =
     (if is_whitespace c
      then (if cur = [] then words_from [] cs else cur # words_from [] cs)
      else words_from (cur @ [c]) cs)"

definition whitespace_words :: "string \<Rightarrow> string list" where
  "whitespace_words s = words_from [] s"

text \<open>The label of a list of words: that of its last word found in either set.\<close>

definition gendered :: "string \<Rightarrow> bool" where
  "gendered w = (w \<in> girls \<or> w \<in> boys)"

definition last_match_label :: "string list \<Rightarrow> int" where
  "last_match_label ws = (if last (filter gendered ws) \<in> girls then 1 else 0)"

text \<open>
  The pieces of a row's column 5 between single spaces, whether one of them is in
  either set, and the row as it is written then.
\<close>

definition space_words :: "string list \<Rightarrow> string list" where
  "space_words row = split_at (CHR '' '') (row ! 5)"

definition has_gendered_word :: "string list \<Rightarrow> bool" where
  "has_gendered_word row = (\<exists>w \<in> set (space_words row). gendered w)"

definition labelled_row :: "string list \<Rightarrow> cell list" where
  "labelled_row row = map Text row @ [Number (last_match_label (space_words row))]"

section \<open>Concrete inputs\<close>

text \<open>
  A tokenizer that makes one token of every character, a vocabulary that maps every
  token to 0, and one example, for evaluating the encoder.
\<close>

definition char_tokenize :: "string \<Rightarrow> string list" where
  "char_tokenize s = map (\<lambda>c. [c]) s"

definition zero_vocab :: "string \<Rightarrow> int" where
  "zero_vocab t = 0"

definition example_abc :: SwagExample where
  "example_abc =
     \<lparr> swag_id = ''1'', context_sentence = ''ab'', start_ending = ''c'',
       ending_0 = ''d'', ending_1 = ''e'', ending_2 = ''f'', ending_3 = ''g'',
       label = Some 0, protected_attr = Some 1 \<rparr>"

text \<open>A parser of the two literals \<open>0\<close> and \<open>1\<close>, and rows of a dataset file.\<close>

definition bit_parse :: "string \<Rightarrow> int option" where
  "bit_parse s = (if s = ''0'' then Some 0 else if s = ''1'' then Some 1 else None)"

definition header_without_label :: "string list" where
  "header_without_label =
     [''n'', ''video-id'', ''fold-ind'', ''startphrase'', ''sent1'', ''sent2'', ''gold-source'',
      ''ending0'', ''ending1'', ''ending2'', ''ending3'']"

definition header_with_label :: "string list" where
  "header_with_label = header_without_label @ [''label'']"

definition data_row :: "string \<Rightarrow> string list" where
  "data_row sent2 =
     [''0'', ''v'', ''7'', ''s'', ''A door opens.'', sent2, ''gold'',
      ''d'', ''e'', ''f'', ''g'', ''1'']"

definition tab_row :: "string list" where
  "tab_row = data_row (''she'' @ [CHR 0x09] @ ''sits'')"

text \<open>A batch of two examples: logits, VP ids and VP masks of shape \<open>2 \<times> 4 \<times> 2\<close>.\<close>

definition batch_logits :: "real list list" where
  "batch_logits = [ [1, 3, 3, 2], [5, 0, 0, 0] ]"

definition batch_vp_ids :: "int list list list" where
  "batch_vp_ids = [ [ [1, 2], [3, 4], [5, 6], [7, 8] ], [ [9, 10], [11, 12], [13, 14], [15, 16] ] ]"

definition batch_vp_mask :: "int list list list" where
  "batch_vp_mask = [ [ [1, 1], [1, 0], [1, 1], [1, 0] ], [ [1, 1], [1, 0], [1, 1], [1, 0] ] ]"

section \<open>Properties of \_truncate\_seq\_pair\<close>

lemma truncate_nonneg:
  "0 \<le> m \<Longrightarrow>
   \<exists>a' b'. truncate_seq_pair a b m = Inr (a', b') \<and>
     (if int (length a + length b) > m
      then int (length a' + length b') = m
      else a' = a \<and> b' = b)"
proof (induction a b m rule: truncate_seq_pair.induct)
  case (1 a b m)
  show ?case
  proof (cases "int (length a + length b) \<le> m")
    case True
    then show ?thesis by (subst truncate_seq_pair.simps) simp
  next
    case over: False
    show ?thesis
    proof (cases "length a > length b")
      case True
      from "1.IH"(1) [OF refl over True "1.prems"]
      obtain a' b' where r: "truncate_seq_pair (butlast a) b m = Inr (a', b')"
        and p: "if int (length (butlast a) + length b) > m
                then int (length a' + length b') = m else a' = butlast a \<and> b' = b"
        by blast
      from True have "a \<noteq> []" by auto
      with over p have "int (length a' + length b') = m"
        by (auto split: if_splits)
      with r over True show ?thesis
        by (subst truncate_seq_pair.simps) simp
    next
      case False
      with over "1.prems" have ne: "b \<noteq> []" by auto
      from "1.IH"(2) [OF refl over False ne "1.prems"]
      obtain a' b' where r: "truncate_seq_pair a (butlast b) m = Inr (a', b')"
        and p: "if int (length a + length (butlast b)) > m
                then int (length a' + length b') = m else a' = a \<and> b' = butlast b"
        by blast
      from ne over p have "int (length a' + length b') = m"
        by (auto split: if_splits)
      with r over False ne show ?thesis
        by (subst truncate_seq_pair.simps) simp
    qed
  qed
qed

lemma truncate_negative: "m < 0 \<Longrightarrow> truncate_seq_pair a b m = Inl IndexError"
proof (induction a b m rule: truncate_seq_pair.induct)
  case (1 a b m)
  then have over: "\<not> int (length a + length b) \<le> m" by simp
  show ?case
  proof (cases "length a > length b")
    case True
    with "1.IH"(1) [OF refl over True "1.prems"] over show ?thesis
      by (subst truncate_seq_pair.simps) simp
  next
    case False
    show ?thesis
    proof (cases "b = []")
      case True
      with over False show ?thesis by (subst truncate_seq_pair.simps) simp
    next
      case ne: False
      with "1.IH"(2) [OF refl over False ne "1.prems"] over False show ?thesis
        by (subst truncate_seq_pair.simps) simp
    qed
  qed
qed


lemma truncate_states_hd: "hd (truncate_states a b m) = (a, b)"
  by (subst truncate_states.simps) (simp add: Let_def)

lemma truncate_states_ne: "truncate_states a b m \<noteq> []"
  by (subst truncate_states.simps) (simp add: Let_def)

lemma truncate_states_steps:
  "Suc i < length (truncate_states a b m) \<Longrightarrow>
   removal (truncate_states a b m ! i) (truncate_states a b m ! Suc i)"
proof (induction a b m arbitrary: i rule: truncate_states.induct)
  case (1 a b m)
  show ?case
  proof (cases "int (length a + length b) \<le> m")
    case True
    with "1.prems" show ?thesis by (subst (asm) truncate_states.simps) simp
  next
    case over: False
    show ?thesis
    proof (cases "length a > length b")
      case True
      let ?rest = "truncate_states (butlast a) b m"
      have eq: "truncate_states a b m = (a, b) # ?rest"
        using over True by (subst truncate_states.simps) simp
      show ?thesis
      proof (cases i)
        case 0
        have "?rest ! 0 = (butlast a, b)"
          using truncate_states_hd [of "butlast a" b m] truncate_states_ne [of "butlast a" b m]
          by (simp add: hd_conv_nth)
        with 0 True show ?thesis by (simp add: eq removal_def)
      next
        case (Suc k)
        with "1.prems" have "Suc k < length ?rest" by (simp add: eq)
        from "1.IH"(1) [OF refl over True this] Suc show ?thesis by (simp add: eq)
      qed
    next
      case False
      show ?thesis
      proof (cases "b = []")
        case True
        with over False "1.prems" show ?thesis by (subst (asm) truncate_states.simps) simp
      next
        case ne: False
        let ?rest = "truncate_states a (butlast b) m"
        have eq: "truncate_states a b m = (a, b) # ?rest"
          using over False ne by (subst truncate_states.simps) simp
        show ?thesis
        proof (cases i)
          case 0
          have "?rest ! 0 = (a, butlast b)"
            using truncate_states_hd [of a "butlast b" m] truncate_states_ne [of a "butlast b" m]
            by (simp add: hd_conv_nth)
          with 0 False ne show ?thesis by (simp add: eq removal_def)
        next
          case (Suc k)
          with "1.prems" have "Suc k < length ?rest" by (simp add: eq)
          from "1.IH"(2) [OF refl over False ne this] Suc show ?thesis by (simp add: eq)
        qed
      qed
    qed
  qed
qed

lemma truncate_states_result:
  "truncate_seq_pair a b m =
     (let s = last (truncate_states a b m) in
      if int (length (fst s) + length (snd s)) \<le> m then Inr s else Inl IndexError)"
proof (induction a b m rule: truncate_states.induct)
  case (1 a b m)
  show ?case
  proof (cases "int (length a + length b) \<le> m")
    case True
    then show ?thesis
      by (subst truncate_seq_pair.simps, subst truncate_states.simps) simp
  next
    case over: False
    show ?thesis
    proof (cases "length a > length b")
      case True
      with "1.IH"(1) [OF refl over True] over show ?thesis
        by (subst truncate_seq_pair.simps, subst truncate_states.simps)
           (simp add: truncate_states_ne)
    next
      case False
      show ?thesis
      proof (cases "b = []")
        case True
        with over False show ?thesis
          by (subst truncate_seq_pair.simps, subst truncate_states.simps) simp
      next
        case ne: False
        with "1.IH"(2) [OF refl over False ne] over False show ?thesis
          by (subst truncate_seq_pair.simps, subst truncate_states.simps)
             (simp add: truncate_states_ne)
      qed
    qed
  qed
qed

lemma removal_functional: "removal s t \<Longrightarrow> removal s t' \<Longrightarrow> t = t'"
  unfolding removal_def by (cases "length (fst s)" "length (snd s)" rule: linorder_cases) auto

text \<open>
  C3, as amended. For a budget \<open>max_length \<ge> 0\<close> the call returns; when the combined
  length exceeded the budget the two lengths then add up to the budget exactly, and
  otherwise both lists are unchanged. For a negative budget (a \<open>max_seq_length\<close> below 3)
  no length can satisfy the loop condition, and the call ends in the \<open>IndexError\<close> of a
  \<open>pop\<close> from an empty list.
\<close>

theorem truncate_seq_pair_budget:
  "(0 \<le> m \<longrightarrow>
      (\<exists>a' b'. truncate_seq_pair a b m = Inr (a', b') \<and>
         (if int (length a + length b) > m
          then int (length a' + length b') = m
          else a' = a \<and> b' = b))) \<and>
   (m < 0 \<longrightarrow> truncate_seq_pair a b m = Inl IndexError)"
  using truncate_nonneg [of m a b] truncate_negative [of m a b] by blast

theorem truncate_seq_pair_budget_witness:
  "(0::int) \<le> 3 \<and>
   (\<exists>a' b'. truncate_seq_pair [1::nat, 2, 3] [4, 5] 3 = Inr (a', b') \<and>
      int (length a' + length b') = 3) \<and>
   (-1::int) < 0 \<and> truncate_seq_pair [1::nat] [] (-1) = Inl IndexError"
  using truncate_seq_pair_budget [of 3 "[1::nat, 2, 3]" "[4, 5]"]
    truncate_seq_pair_budget [of "-1" "[1::nat]" "[]"]
  by simp

text \<open>
  C3 as stated fails for a negative budget: the combined length 3 exceeds the budget -1,
  and the call raises instead of returning lists whose lengths add up to the budget.
\<close>

theorem truncate_seq_pair_negative_budget_counterexample:
  "int (length [1::nat, 2] + length [3::nat]) > -1 \<and>
   truncate_seq_pair [1::nat, 2] [3] (-1) = Inl IndexError"
  by code_simp

text \<open>
  C4. The states of the loop start with the input; every two consecutive states are
  related by one removal, which is taken from the longer list and from the second list
  when the lengths are equal; the result of the call is read off the last state. A state
  has at most one successor, so the whole sequence of removals is determined by the input.
\<close>

theorem truncate_removes_from_longer:
  "hd (truncate_states a b m) = (a, b) \<and>
   (\<forall>i. Suc i < length (truncate_states a b m) \<longrightarrow>
      removal (truncate_states a b m ! i) (truncate_states a b m ! Suc i)) \<and>
   truncate_seq_pair a b m =
     (let s = last (truncate_states a b m) in
      if int (length (fst s) + length (snd s)) \<le> m then Inr s else Inl IndexError) \<and>
   (\<forall>s t t'. removal s t \<longrightarrow> removal s t' \<longrightarrow> t = (t' :: 'a list \<times> 'a list))"
  using truncate_states_hd [of a b m] truncate_states_steps [of _ a b m]
    truncate_states_result [of a b m] removal_functional
  by blast

theorem truncate_removes_from_longer_witness:
  "truncate_states [1::nat, 2, 3] [4, 5] 2 =
     [([1, 2, 3], [4, 5]), ([1, 2], [4, 5]), ([1, 2], [4]), ([1], [4])] \<and>
   removal ([1::nat, 2, 3], [4, 5]) ([1, 2], [4, 5]) \<and>
   removal ([1::nat, 2], [4, 5]) ([1, 2], [4]) \<and>
   truncate_seq_pair [1::nat, 2, 3] [4, 5] 2 = Inr ([1], [4])"
proof -
  define S where "S = truncate_states [1::nat, 2, 3] [4, 5] 2"
  have states: "S = [([1, 2, 3], [4, 5]), ([1, 2], [4, 5]), ([1, 2], [4]), ([1], [4])]"
    unfolding S_def by code_simp
  note inst = truncate_removes_from_longer [of "[1::nat, 2, 3]" "[4, 5]" 2, folded S_def]
  from inst have steps: "Suc i < length S \<Longrightarrow> removal (S ! i) (S ! Suc i)" for i
    by blast
  have "removal (S ! 0) (S ! Suc 0)"
    by (rule steps) (simp add: states)
  then have first: "removal ([1::nat, 2, 3], [4, 5]) ([1, 2], [4, 5])"
    by (simp add: states)
  have "removal (S ! Suc 0) (S ! Suc (Suc 0))"
    by (rule steps) (simp add: states)
  then have second: "removal ([1::nat, 2], [4, 5]) ([1, 2], [4])"
    by (simp add: states)
  from inst have "truncate_seq_pair [1::nat, 2, 3] [4, 5] 2 =
      (let s = last S in
       if int (length (fst s) + length (snd s)) \<le> 2 then Inr s else Inl IndexError)"
    by blast
  then have result: "truncate_seq_pair [1::nat, 2, 3] [4, 5] 2 = Inr ([1], [4])"
    by (simp add: states)
  from states first second result show ?thesis
    unfolding S_def by blast
qed

section \<open>Properties of the feature encoder\<close>

lemma truncate_within:
  assumes "0 \<le> m"
  shows "\<exists>a' b'. truncate_seq_pair a b m = Inr (a', b') \<and> int (length a' + length b') \<le> m"
proof -
  from truncate_nonneg [OF assms, of a b]
  obtain a' b' where r: "truncate_seq_pair a b m = Inr (a', b')"
    and p: "if int (length a + length b) > m
            then int (length a' + length b') = m else a' = a \<and> b' = b"
    by blast
  from p have "int (length a' + length b') \<le> m" by (auto split: if_splits)
  with r show ?thesis by blast
qed

lemma encode_choice_small:
  "msl < 3 \<Longrightarrow> encode_choice tok vocab msl ctx st e = Inl IndexError"
  by (simp add: encode_choice_def bind_err_def truncate_negative)

lemma encode_choice_long:
  assumes "3 \<le> msl" and "\<not> int (length (tok e)) \<le> msl div 2 - 2"
  shows "encode_choice tok vocab msl ctx st e = Inl AssertionError"
proof -
  from assms(1) have "0 \<le> msl - 3" by simp
  from truncate_within [OF this, of ctx "st @ tok e"]
  obtain a' b' where r: "truncate_seq_pair ctx (st @ tok e) (msl - 3) = Inr (a', b')"
    and le: "int (length a' + length b') \<le> msl - 3"
    by blast
  from assms le show ?thesis
    by (simp add: encode_choice_def bind_err_def r Let_def zeros_def half_length_def)
qed

lemma encode_choice_fits:
  assumes "3 \<le> msl" and "int (length (tok e)) \<le> msl div 2 - 2"
  shows "\<exists>c. encode_choice tok vocab msl ctx st e = Inr c \<and>
           int (length (t_input_ids c)) = msl \<and>
           int (length (t_input_mask c)) = msl \<and>
           int (length (t_segment_ids c)) = msl \<and>
           int (length (t_vp_input_ids c)) = msl div 2 \<and>
           int (length (t_vp_input_mask c)) = msl div 2"
proof -
  from assms(1) have "0 \<le> msl - 3" by simp
  from truncate_within [OF this, of ctx "st @ tok e"]
  obtain a' b' where r: "truncate_seq_pair ctx (st @ tok e) (msl - 3) = Inr (a', b')"
    and le: "int (length a' + length b') \<le> msl - 3"
    by blast
  from assms le show ?thesis
    by (simp add: encode_choice_def bind_err_def r Let_def zeros_def half_length_def)
qed


lemma map_err_Inr_iff:
  "(\<exists>ys. map_err f xs = Inr ys) \<longleftrightarrow> (\<forall>x \<in> set xs. \<exists>y. f x = Inr y)"
  by (induction xs) (auto split: sum.splits)

lemma map_err_Inr:
  "map_err f xs = Inr ys \<Longrightarrow> list_all2 (\<lambda>x y. f x = Inr y) xs ys"
  by (induction xs arbitrary: ys) (auto split: sum.splits)

lemma map_err_Inl:
  assumes "\<forall>x \<in> set xs. (\<exists>y. f x = Inr y) \<or> f x = Inl e"
    and "\<exists>x \<in> set xs. f x = Inl e"
  shows "map_err f xs = Inl e"
  using assms
proof (induction xs)
  case Nil
  then show ?case by simp
next
  case (Cons x xs)
  show ?case
  proof (cases "f x")
    case (Inl e')
    with Cons.prems(1) have "e' = e" by auto
    with Inl show ?thesis by simp
  next
    case (Inr y)
    with Cons.prems(2) have "\<exists>x \<in> set xs. f x = Inl e" by auto
    with Cons.IH Cons.prems(1) have "map_err f xs = Inl e" by simp
    with Inr show ?thesis by simp
  qed
qed

lemma encode_choice_Inr_iff:
  "(\<exists>c. encode_choice tok vocab msl ctx st e = Inr c) \<longleftrightarrow>
   int (length (tok e)) \<le> msl div 2 - 2"
proof (cases "msl < 3")
  case True
  then have "\<not> int (length (tok e)) \<le> msl div 2 - 2" by linarith
  with True show ?thesis by (simp add: encode_choice_small)
next
  case False
  then have ge: "3 \<le> msl" by simp
  show ?thesis
  proof (cases "int (length (tok e)) \<le> msl div 2 - 2")
    case True
    with encode_choice_fits [where tok = tok and e = e and msl = msl and vocab = vocab
        and ctx = ctx and st = st] ge
    show ?thesis by blast
  next
    case False
    with encode_choice_long [where tok = tok and e = e and msl = msl and vocab = vocab
        and ctx = ctx and st = st] ge
    show ?thesis by simp
  qed
qed

lemma encode_example_Inr_iff:
  "(\<exists>f. encode_example tok vocab msl ex = Inr f) \<longleftrightarrow>
   (\<forall>e \<in> set (endings ex). int (length (tok e)) \<le> msl div 2 - 2)"
proof -
  let ?enc = "encode_choice tok vocab msl (tok (context_sentence ex)) (tok (start_ending ex))"
  have "(\<exists>f. encode_example tok vocab msl ex = Inr f) \<longleftrightarrow>
        (\<exists>cs. map_err ?enc (endings ex) = Inr cs)"
    by (auto simp: encode_example_def bind_err_def Let_def split: sum.splits)
  also have "\<dots> \<longleftrightarrow> (\<forall>e \<in> set (endings ex). \<exists>c. ?enc e = Inr c)"
    by (rule map_err_Inr_iff)
  also have "\<dots> \<longleftrightarrow> (\<forall>e \<in> set (endings ex). int (length (tok e)) \<le> msl div 2 - 2)"
    by (simp only: encode_choice_Inr_iff)
  finally show ?thesis .
qed

lemma convert_Inr_iff:
  "(\<exists>fs. convert_examples_to_features examples tok vocab msl tr = Inr fs) \<longleftrightarrow>
   endings_fit tok msl examples"
  unfolding convert_examples_to_features_def endings_fit_def
  by (simp only: map_err_Inr_iff encode_example_Inr_iff)

lemma list_all2_right_member:
  "list_all2 P xs ys \<Longrightarrow> y \<in> set ys \<Longrightarrow> \<exists>x \<in> set xs. P x y"
  by (induction rule: list_all2_induct) auto

lemma encode_example_ok:
  assumes "encode_example tok vocab msl ex = Inr f"
  shows "feature_ok msl f"
proof -
  let ?enc = "encode_choice tok vocab msl (tok (context_sentence ex)) (tok (start_ending ex))"
  from assms obtain cs where cs: "map_err ?enc (endings ex) = Inr cs"
    and f: "f = InputFeatures_init (swag_id ex) cs (label ex) (protected_attr ex) (endings ex)"
    by (auto simp: encode_example_def bind_err_def Let_def split: sum.splits)
  from map_err_Inr [OF cs] have all2: "list_all2 (\<lambda>e c. ?enc e = Inr c) (endings ex) cs" .
  then have len: "length cs = 4" by (simp add: list_all2_lengthD [symmetric] endings_def)
  have each: "int (length (t_input_ids c)) = msl \<and>
              int (length (t_input_mask c)) = msl \<and>
              int (length (t_segment_ids c)) = msl \<and>
              int (length (t_vp_input_ids c)) = msl div 2 \<and>
              int (length (t_vp_input_mask c)) = msl div 2" if "c \<in> set cs" for c
  proof -
    from list_all2_right_member [OF all2 that]
    obtain e where e: "e \<in> set (endings ex)" and enc: "?enc e = Inr c"
      by blast
    from enc encode_choice_Inr_iff [where tok = tok and e = e and msl = msl and vocab = vocab
        and ctx = "tok (context_sentence ex)" and st = "tok (start_ending ex)"]
    have fit: "int (length (tok e)) \<le> msl div 2 - 2" by blast
    then have ge: "3 \<le> msl" by linarith
    from encode_choice_fits [where tok = tok and e = e and msl = msl and vocab = vocab
        and ctx = "tok (context_sentence ex)" and st = "tok (start_ending ex)"] ge fit enc
    show ?thesis by auto
  qed
  from len each show ?thesis
    by (auto simp: feature_ok_def choice_lengths_ok_def f InputFeatures_init_def)
qed

lemma convert_features_ok:
  assumes "convert_examples_to_features examples tok vocab msl tr = Inr fs"
  shows "length fs = length examples \<and> (\<forall>f \<in> set fs. feature_ok msl f)"
proof -
  from assms have "list_all2 (\<lambda>ex f. encode_example tok vocab msl ex = Inr f) examples fs"
    unfolding convert_examples_to_features_def by (rule map_err_Inr)
  then show ?thesis
    by (auto dest: list_all2_lengthD list_all2_right_member intro: encode_example_ok)
qed


lemma encode_example_Inl_iff:
  "encode_example tok vocab msl ex = Inl err \<longleftrightarrow>
   map_err (encode_choice tok vocab msl (tok (context_sentence ex)) (tok (start_ending ex)))
     (endings ex) = Inl err"
  by (auto simp: encode_example_def bind_err_def Let_def split: sum.splits)

lemma encode_example_small:
  assumes "msl < 3"
  shows "encode_example tok vocab msl ex = Inl IndexError"
  unfolding encode_example_Inl_iff
  by (rule map_err_Inl) (auto simp: encode_choice_small [OF assms] endings_def)

lemma encode_example_long:
  assumes "3 \<le> msl" and "\<not> (\<forall>e \<in> set (endings ex). int (length (tok e)) \<le> msl div 2 - 2)"
  shows "encode_example tok vocab msl ex = Inl AssertionError"
  unfolding encode_example_Inl_iff
proof (rule map_err_Inl)
  let ?enc = "encode_choice tok vocab msl (tok (context_sentence ex)) (tok (start_ending ex))"
  show "\<forall>e \<in> set (endings ex). (\<exists>c. ?enc e = Inr c) \<or> ?enc e = Inl AssertionError"
    using encode_choice_long [OF assms(1)] encode_choice_Inr_iff by blast
  from assms(2) obtain e where "e \<in> set (endings ex)"
    and "\<not> int (length (tok e)) \<le> msl div 2 - 2" by blast
  with encode_choice_long [OF assms(1)]
  show "\<exists>e \<in> set (endings ex). ?enc e = Inl AssertionError" by blast
qed

lemma convert_small:
  assumes "msl < 3" and "examples \<noteq> []"
  shows "convert_examples_to_features examples tok vocab msl tr = Inl IndexError"
  unfolding convert_examples_to_features_def
proof (rule map_err_Inl)
  show "\<forall>ex \<in> set examples. (\<exists>f. encode_example tok vocab msl ex = Inr f) \<or>
          encode_example tok vocab msl ex = Inl IndexError"
    by (simp add: encode_example_small [OF assms(1)])
  from assms(2) obtain ex where "ex \<in> set examples" by (cases examples) auto
  then show "\<exists>ex \<in> set examples. encode_example tok vocab msl ex = Inl IndexError"
    using encode_example_small [OF assms(1)] by blast
qed

lemma convert_long:
  assumes "3 \<le> msl" and "\<not> endings_fit tok msl examples"
  shows "convert_examples_to_features examples tok vocab msl tr = Inl AssertionError"
  unfolding convert_examples_to_features_def
proof (rule map_err_Inl)
  show "\<forall>ex \<in> set examples. (\<exists>f. encode_example tok vocab msl ex = Inr f) \<or>
          encode_example tok vocab msl ex = Inl AssertionError"
    using encode_example_long [OF assms(1)] encode_example_Inr_iff by blast
  from assms(2) obtain ex where "ex \<in> set examples"
    and "\<not> (\<forall>e \<in> set (endings ex). int (length (tok e)) \<le> msl div 2 - 2)"
    unfolding endings_fit_def by blast
  with encode_example_long [OF assms(1)]
  show "\<exists>ex \<in> set examples. encode_example tok vocab msl ex = Inl AssertionError" by blast
qed

text \<open>
  What the encoder returns: it returns whenever every ending alone has at most
  \<open>max_seq_length // 2 - 2\<close> tokens, and whenever it returns there is one feature per
  example, each with exactly 4 encoded choices whose ids, mask and segment ids have
  length \<open>max_seq_length\<close> and whose VP ids and VP mask have length
  \<open>max_seq_length // 2\<close>.
\<close>

lemma convert_returns_lengths:
  "(endings_fit tokenize max_seq_length examples \<longrightarrow>
      (\<exists>fs. convert_examples_to_features examples tokenize vocab max_seq_length is_training
               = Inr fs)) \<and>
   (\<forall>fs. convert_examples_to_features examples tokenize vocab max_seq_length is_training
            = Inr fs \<longrightarrow>
      length fs = length examples \<and> (\<forall>f \<in> set fs. feature_ok max_seq_length f))"
  using convert_Inr_iff [of examples tokenize vocab max_seq_length is_training]
    convert_features_ok [of examples tokenize vocab max_seq_length is_training]
  by blast

lemma convert_returns_lengths_example:
  "endings_fit char_tokenize 8 [example_abc] \<and>
   (\<exists>fs. convert_examples_to_features [example_abc] char_tokenize zero_vocab 8 True = Inr fs \<and>
      length fs = 1 \<and> (\<forall>f \<in> set fs. feature_ok 8 f))"
proof -
  have fit: "endings_fit char_tokenize 8 [example_abc]" by code_simp
  with convert_returns_lengths [of char_tokenize 8 "[example_abc]" zero_vocab True]
  show ?thesis by auto
qed

text \<open>
  C2 at one example with endings of one token and \<open>max_seq_length = 4\<close>. The claim asks
  for 4 encoded choices with VP ids of length \<open>4 // 2 = 2\<close>. The context and the ending
  span are truncated to fit the full sequence, but the VP sequence is assembled from the
  untruncated ending: start token, one token, separator, 3 entries. The encoder's own
  assertion on the VP length fails and no feature is produced.
\<close>

theorem convert_examples_to_features_vp_assertion_fails:
  "length ([''[CLS]''] @ char_tokenize (ending_0 example_abc) @ [''[SEP]'']) = 3 \<and>
   half_length 4 = 2 \<and>
   truncate_seq_pair (char_tokenize (context_sentence example_abc))
       (char_tokenize (start_ending example_abc) @ char_tokenize (ending_0 example_abc))
       (4 - 3)
     = Inr ([''a''], []) \<and>
   convert_examples_to_features [example_abc] char_tokenize zero_vocab 4 True
     = Inl AssertionError"
  by code_simp

text \<open>
  C9, as amended. The VP sequence is never truncated, and the encoder returns if and
  only if every ending of every example alone has at most \<open>max_seq_length // 2 - 2\<close>
  tokens. When \<open>max_seq_length \<ge> 3\<close>, a longer ending makes a length assertion fail.
  When \<open>max_seq_length < 3\<close> the encoder aborts on any example before an assertion is
  reached, with the \<open>IndexError\<close> of \<open>_truncate_seq_pair\<close>.
\<close>

theorem vp_sequence_never_truncated:
  "((\<exists>fs. convert_examples_to_features examples tokenize vocab max_seq_length is_training
             = Inr fs)
      \<longleftrightarrow> endings_fit tokenize max_seq_length examples) \<and>
   (3 \<le> max_seq_length \<and> \<not> endings_fit tokenize max_seq_length examples \<longrightarrow>
      convert_examples_to_features examples tokenize vocab max_seq_length is_training
        = Inl AssertionError) \<and>
   (max_seq_length < 3 \<and> examples \<noteq> [] \<longrightarrow>
      convert_examples_to_features examples tokenize vocab max_seq_length is_training
        = Inl IndexError)"
  using convert_Inr_iff [of examples tokenize vocab max_seq_length is_training]
    convert_long [of max_seq_length tokenize examples vocab is_training]
    convert_small [of max_seq_length examples tokenize vocab is_training]
  by blast

theorem vp_sequence_never_truncated_witness:
  "(3::int) \<le> 4 \<and> \<not> endings_fit char_tokenize 4 [example_abc] \<and>
   convert_examples_to_features [example_abc] char_tokenize zero_vocab 4 False
     = Inl AssertionError \<and>
   (2::int) < 3 \<and> [example_abc] \<noteq> [] \<and>
   convert_examples_to_features [example_abc] char_tokenize zero_vocab 2 False
     = Inl IndexError \<and>
   endings_fit char_tokenize 8 [example_abc] \<and>
   (\<exists>fs. convert_examples_to_features [example_abc] char_tokenize zero_vocab 8 False = Inr fs)"
proof -
  have fit: "endings_fit char_tokenize 8 [example_abc]" by code_simp
  have unfit: "\<not> endings_fit char_tokenize 4 [example_abc]" by code_simp
  from fit unfit
    vp_sequence_never_truncated [of "[example_abc]" char_tokenize zero_vocab 4 False]
    vp_sequence_never_truncated [of "[example_abc]" char_tokenize zero_vocab 2 False]
    vp_sequence_never_truncated [of "[example_abc]" char_tokenize zero_vocab 8 False]
  show ?thesis by simp
qed

text \<open>
  C9 as stated fails at \<open>max_seq_length = 2\<close>: every ending is longer than
  \<open>2 // 2 - 2 = -1\<close>, yet no assertion fails; the encoder aborts with an
  \<open>IndexError\<close> before it reaches them.
\<close>

theorem vp_assertion_not_reached_counterexample:
  "int (length (char_tokenize (ending_0 example_abc))) > 2 div 2 - 2 \<and>
   convert_examples_to_features [example_abc] char_tokenize zero_vocab 2 True
     = Inl IndexError \<and>
   convert_examples_to_features [example_abc] char_tokenize zero_vocab 2 True
     \<noteq> Inl AssertionError"
  by code_simp

section \<open>Properties of the example reader\<close>

lemma messages_differ: "invalid_literal_message cell \<noteq> label_column_message"
  by (simp add: invalid_literal_message_def label_column_message_def)

lemma py_int_errors:
  "py_int parse c = Inl e \<Longrightarrow> e \<noteq> ValueError label_column_message"
  by (auto simp: py_int_def messages_differ split: option.splits)

lemma py_index_errors: "py_index xs i = Inl e \<Longrightarrow> e = IndexError"
  by (auto simp: py_index_def split: if_splits)

lemma make_example_errors:
  "make_example parse t line = Inl e \<Longrightarrow> e \<noteq> ValueError label_column_message"
  unfolding make_example_def bind_err_def
  by (auto split: sum.splits if_splits dest: py_int_errors py_index_errors)

lemma build_examples_errors:
  "build_examples parse t ls = Inl (e, c) \<Longrightarrow> e \<noteq> ValueError label_column_message"
proof (induction ls arbitrary: c)
  case Nil
  then show ?case by simp
next
  case (Cons l ls)
  then show ?case
    by (auto split: sum.splits prod.splits dest: make_example_errors)
qed

lemma read_label_error:
  "(\<exists>c. read_swag_examples parse lines is_training = Inl (ValueError label_column_message, c))
     \<longleftrightarrow> is_training \<and> (\<exists>header rest. lines = header # rest \<and> ''label'' \<notin> set header)"
  unfolding read_swag_examples_def
  by (auto split: list.splits dest: build_examples_errors)

lemma read_label_error_first:
  "read_swag_examples parse lines is_training = Inl (ValueError label_column_message, c)
     \<Longrightarrow> c = []"
  unfolding read_swag_examples_def
  by (auto split: list.splits if_splits dest: build_examples_errors)

text \<open>
  C7. The call ends in the \<open>ValueError\<close> of the missing label column if and only if it
  is in training mode and the header row (the first row, when there is one) has no cell
  \<open>label\<close>; no example has been constructed then. The other exceptions of the function
  are the \<open>IndexError\<close> of a missing row or cell and the \<open>ValueError\<close> of the builtin
  \<open>int\<close>, which carries another message.
\<close>

theorem read_swag_examples_label_column:
  "((\<exists>c. read_swag_examples parse lines is_training
            = Inl (ValueError label_column_message, c))
      \<longleftrightarrow> is_training \<and> (\<exists>header rest. lines = header # rest \<and> ''label'' \<notin> set header)) \<and>
   (\<forall>c. read_swag_examples parse lines is_training
            = Inl (ValueError label_column_message, c) \<longrightarrow> c = [])"
  using read_label_error [of parse lines is_training]
    read_label_error_first [of parse lines is_training]
  by blast

theorem read_swag_examples_label_column_witness:
  "''label'' \<notin> set header_without_label \<and>
   read_swag_examples bit_parse [header_without_label, data_row ''He''] True
     = Inl (ValueError label_column_message, [])"
proof -
  have no_label: "''label'' \<notin> set header_without_label"
    by (simp add: header_without_label_def)
  with read_swag_examples_label_column
    [of bit_parse "[header_without_label, data_row ''He'']" True]
  show ?thesis by auto
qed

section \<open>Properties of get\_gender.py\<close>

lemma last_match_label_Cons:
  "filter gendered ws \<noteq> [] \<Longrightarrow> last_match_label (w # ws) = last_match_label ws"
  by (simp add: last_match_label_def)

lemma scan_words_eq:
  "scan_words ws lab =
     (if filter gendered ws = [] then lab else Some (last_match_label ws))"
proof (induction ws arbitrary: lab)
  case Nil
  then show ?case by simp
next
  case (Cons w ws)
  show ?case
  proof (cases "filter gendered ws = []")
    case True
    with Cons.IH have "scan_words ws l = l" for l by simp
    with True show ?thesis
      by (simp add: last_match_label_def gendered_def [of w])
  next
    case False
    with Cons.IH show ?thesis
      by (simp add: last_match_label_Cons)
  qed
qed

lemma scan_row:
  "scan_words (split_at (CHR '' '') (row ! 5)) None =
     (if has_gendered_word row then Some (last_match_label (space_words row)) else None)"
  by (auto simp: scan_words_eq has_gendered_word_def space_words_def filter_empty_conv)

lemma label_rows_eq:
  "label_rows rows written =
     (if \<forall>row \<in> set rows. 5 < length row then None else Some IndexError,
      written @ map labelled_row
        (filter has_gendered_word (takeWhile (\<lambda>row. 5 < length row) rows)))"
proof (induction rows arbitrary: written)
  case Nil
  then show ?case by simp
next
  case (Cons row rows)
  show ?case
  proof (cases "5 < length row")
    case False
    then show ?thesis by (simp add: py_index_def)
  next
    case True
    then show ?thesis
      by (simp add: py_index_def scan_row Cons.IH labelled_row_def)
  qed
qed

lemma get_gender_eq:
  "get_gender (header # rows) =
     (if \<forall>row \<in> set rows. 5 < length row then None else Some IndexError,
      (map Text header @ [Text ''gender'']) #
        map labelled_row (filter has_gendered_word (takeWhile (\<lambda>row. 5 < length row) rows)))"
  by (simp add: get_gender_def label_rows_eq)

lemma girls_boys_disjoint: "girls \<inter> boys = {}"
  by (auto simp: girls_def boys_def)

text \<open>
  C10, as amended. The header is written with \<open>gender\<close> appended. As long as every data
  row has a column 5, a row is written if and only if one of the pieces of that column
  between single space characters is in the female or the male set, in the order of the
  input, with the label of the last such piece appended: 1 if it is in the female set,
  0 if it is in the male set (no word is in both). A row without a column 5 ends the
  script with \<open>IndexError\<close>, and no later row is written.
\<close>

theorem get_gender_rows:
  "get_gender (header # rows) =
     (if \<forall>row \<in> set rows. 5 < length row then None else Some IndexError,
      (map Text header @ [Text ''gender'']) #
        map labelled_row
          (filter has_gendered_word (takeWhile (\<lambda>row. 5 < length row) rows))) \<and>
   girls \<inter> boys = {}"
  using get_gender_eq [of header rows] girls_boys_disjoint by simp

theorem get_gender_rows_witness:
  "map length [data_row ''she and he'', data_row ''the dog'', data_row ''he and  She'']
     = [12, 12, 12] \<and>
   get_gender [header_with_label, data_row ''she and he'', data_row ''the dog'',
               data_row ''he and  She''] =
     (None, [map Text header_with_label @ [Text ''gender''],
             map Text (data_row ''she and he'') @ [Number 0],
             map Text (data_row ''he and  She'') @ [Number 1] ])"
proof -
  have direct: "get_gender [header_with_label, data_row ''she and he'', data_row ''the dog'',
               data_row ''he and  She''] =
     (None, [map Text header_with_label @ [Text ''gender''],
             map Text (data_row ''she and he'') @ [Number 0],
             map Text (data_row ''he and  She'') @ [Number 1] ])"
    by code_simp
  have long: "\<forall>row \<in> set [data_row ''she and he'', data_row ''the dog'', data_row ''he and  She''].
      5 < length row"
    by (simp add: data_row_def)
  from get_gender_rows [of header_with_label
      "[data_row ''she and he'', data_row ''the dog'', data_row ''he and  She'']"] long
  have "fst (get_gender [header_with_label, data_row ''she and he'', data_row ''the dog'',
               data_row ''he and  She'']) = None"
    by simp
  moreover have "map length [data_row ''she and he'', data_row ''the dog'',
      data_row ''he and  She''] = [12, 12, 12]"
    by (simp add: data_row_def)
  ultimately show ?thesis using direct by simp
qed

text \<open>
  C10 as stated fails on a cell whose words are separated by a tab: \<open>she\<close> is a
  whitespace-separated word of the cell and is in the female set, but the script splits
  at spaces only, finds no word of either set, and does not write the row.
\<close>

theorem get_gender_tab_counterexample:
  "''she'' \<in> set (whitespace_words (tab_row ! 5)) \<and> ''she'' \<in> girls \<and>
   get_gender [header_with_label, tab_row] =
     (None, [map Text header_with_label @ [Text ''gender''] ])"
  by code_simp

section \<open>Properties of the tensor operations\<close>

lemma max_from_argmax:
  assumes "length ps = k" and "i < k" and "ps ! i = m"
    and "\<forall>j < k. ps ! j \<le> m" and "\<forall>j < i. ps ! j < m"
    and "max_from m i k xs = (v, n)"
  shows "is_argmax (ps @ xs) n \<and> v = (ps @ xs) ! n"
  using assms
proof (induction xs arbitrary: ps k i m)
  case Nil
  then show ?case by (auto simp: is_argmax_def)
next
  case (Cons x xs)
  show ?case
  proof (cases "m < x")
    case True
    with Cons.prems have run: "max_from x k (Suc k) xs = (v, n)" by simp
    have "is_argmax ((ps @ [x]) @ xs) n \<and> v = ((ps @ [x]) @ xs) ! n"
    proof (rule Cons.IH [OF _ _ _ _ _ run])
      show "length (ps @ [x]) = Suc k" using Cons.prems(1) by simp
      show "k < Suc k" by simp
      show "(ps @ [x]) ! k = x" using Cons.prems(1) by (simp add: nth_append)
      show "\<forall>j < Suc k. (ps @ [x]) ! j \<le> x"
        using Cons.prems(1,4) True by (auto simp: nth_append less_Suc_eq intro: order_trans less_imp_le)
      show "\<forall>j < k. (ps @ [x]) ! j < x"
        using Cons.prems(1,4) True by (auto simp: nth_append intro: le_less_trans)
    qed
    then show ?thesis by simp
  next
    case False
    with Cons.prems have run: "max_from m i (Suc k) xs = (v, n)" by simp
    have "is_argmax ((ps @ [x]) @ xs) n \<and> v = ((ps @ [x]) @ xs) ! n"
    proof (rule Cons.IH [OF _ _ _ _ _ run])
      show "length (ps @ [x]) = Suc k" using Cons.prems(1) by simp
      show "i < Suc k" using Cons.prems(2) by simp
      show "(ps @ [x]) ! i = m" using Cons.prems(1,2,3) by (simp add: nth_append)
      show "\<forall>j < Suc k. (ps @ [x]) ! j \<le> m"
        using Cons.prems(1,4) False by (auto simp: nth_append less_Suc_eq)
      show "\<forall>j < i. (ps @ [x]) ! j < m"
        using Cons.prems(1,2,5) by (auto simp: nth_append)
    qed
    then show ?thesis by simp
  qed
qed

lemma torch_max_argmax:
  assumes "row \<noteq> []"
  shows "\<exists>v n. torch_max row = Some (v, n) \<and> is_argmax row n \<and> v = row ! n"
proof -
  from assms obtain x xs where row: "row = x # xs" by (cases row) auto
  obtain v n where run: "max_from x 0 1 xs = (v, n)" by (cases "max_from x 0 1 xs")
  have "is_argmax ([x] @ xs) n \<and> v = ([x] @ xs) ! n"
    by (rule max_from_argmax [OF _ _ _ _ _ run]) auto
  with run row show ?thesis by (simp add: torch_max_def)
qed

lemma torch_argmax_is_argmax:
  "row \<noteq> [] \<Longrightarrow> \<exists>n. torch_argmax row = Some n \<and> is_argmax row n"
  using torch_max_argmax [of row] by (auto simp: torch_argmax_def)

lemma is_argmax_unique:
  assumes "is_argmax row i" and "is_argmax row j"
  shows "i = j"
proof (rule ccontr)
  assume "i \<noteq> j"
  then consider "i < j" | "j < i" by linarith
  then show False
  proof cases
    case 1
    with assms(2) have "row ! i < row ! j" by (simp add: is_argmax_def)
    moreover from assms have "row ! j \<le> row ! i" by (simp add: is_argmax_def)
    ultimately show False by simp
  next
    case 2
    with assms(1) have "row ! j < row ! i" by (simp add: is_argmax_def)
    moreover from assms have "row ! i \<le> row ! j" by (simp add: is_argmax_def)
    ultimately show False by simp
  qed
qed

lemma those_map_argmax:
  assumes "[] \<notin> set out"
  shows "\<exists>idx. those (map torch_argmax out) = Some idx \<and> length idx = length out \<and>
           (\<forall>b < length out. is_argmax (out ! b) (idx ! b))"
  using assms
proof (induction out)
  case Nil
  then show ?case by simp
next
  case (Cons row out)
  then obtain idx where idx: "those (map torch_argmax out) = Some idx"
    "length idx = length out" "\<forall>b < length out. is_argmax (out ! b) (idx ! b)"
    by auto
  from Cons.prems have "row \<noteq> []" by auto
  from torch_argmax_is_argmax [OF this]
  obtain n where n: "torch_argmax row = Some n" "is_argmax row n" by blast
  have "\<forall>b < length (row # out). is_argmax ((row # out) ! b) ((n # idx) ! b)"
    using idx(3) n(2) by (auto simp: nth_Cons split: nat.splits)
  with idx n show ?case by simp
qed

lemma count_true:
  "sum_list (map (\<lambda>i. if P i then 1 else 0) [0..<n]) = int (card {i. i < n \<and> P i})"
proof (induction n)
  case 0
  then show ?case by simp
next
  case (Suc n)
  have split: "{i. i < Suc n \<and> P i} = (if P n then insert n {i. i < n \<and> P i} else {i. i < n \<and> P i})"
    by (auto simp: less_Suc_eq)
  show ?case using Suc by (simp add: split)
qed

lemma zip_eq_map_index:
  "length xs = length ys \<Longrightarrow>
   map (\<lambda>(x, y). x = y) (zip xs ys) = map (\<lambda>i. xs ! i = ys ! i) [0..<length xs]"
  by (rule nth_equalityI) auto

lemma accuracy_count:
  assumes "length out = length labels" and "[] \<notin> set out"
  shows "accuracy out labels =
           Some (int (card {b. b < length out \<and> (\<exists>n. is_argmax (out ! b) n \<and> int n = labels ! b)}))"
proof -
  from those_map_argmax [OF assms(2)]
  obtain idx where idx: "those (map torch_argmax out) = Some idx"
    "length idx = length out" "\<forall>b < length out. is_argmax (out ! b) (idx ! b)"
    by blast
  have same: "{b. b < length out \<and> int (idx ! b) = labels ! b} =
              {b. b < length out \<and> (\<exists>n. is_argmax (out ! b) n \<and> int n = labels ! b)}"
    using idx(3) by (auto dest: is_argmax_unique)
  have pointwise: "map (\<lambda>i. map int idx ! i = labels ! i) [0..<length out] =
                   map (\<lambda>i. int (idx ! i) = labels ! i) [0..<length out]"
    using idx(2) by (intro map_cong) auto
  have "accuracy out labels =
          Some (sum_list (map (\<lambda>b. if b then 1 else 0)
            (map (\<lambda>i. map int idx ! i = labels ! i) [0..<length out])))"
    using idx(1,2) assms(1) by (simp add: accuracy_def tensor_eq_def zip_eq_map_index)
  also have "\<dots> = Some (sum_list (map (\<lambda>i. if int (idx ! i) = labels ! i then 1 else 0) [0..<length out]))"
    unfolding pointwise by (simp add: comp_def)
  also have "\<dots> = Some (int (card {b. b < length out \<and> int (idx ! b) = labels ! b}))"
    by (simp only: count_true)
  finally show ?thesis by (simp only: same)
qed

text \<open>
  C8. On the logits \<open>[ [0.1, 0.9], [0.8, 0.2] ]\<close> and the labels \<open>[1, 0]\<close> the result is
  2. In general, for as many labels as rows and no empty row, the result is the number
  of rows whose argmax is the label of the row.
\<close>

theorem accuracy_counts_argmax_hits:
  "accuracy [ [0.1, 0.9], [0.8, 0.2] ] [1, 0] = Some 2 \<and>
   (length out = length labels \<and> [] \<notin> set out \<longrightarrow>
      accuracy out labels =
        Some (int (card {b. b < length out \<and>
                            (\<exists>n. is_argmax (out ! b) n \<and> int n = labels ! b)})))"
proof -
  have "accuracy [ [0.1, 0.9], [0.8, 0.2] ] [1, 0] = Some 2"
    by (simp add: accuracy_def torch_argmax_def torch_max_def tensor_eq_def)
  with accuracy_count [of out labels] show ?thesis by blast
qed

theorem accuracy_counts_argmax_hits_witness:
  "length [ [0.1, 0.9], [0.8, 0.2::real] ] = length [1, 0::int] \<and>
   [] \<notin> set [ [0.1, 0.9], [0.8, 0.2::real] ] \<and>
   card {b. b < length [ [0.1, 0.9], [0.8, 0.2::real] ] \<and>
            (\<exists>n. is_argmax ([ [0.1, 0.9], [0.8, 0.2] ] ! b) n \<and> int n = [1, 0] ! b)} = 2"
proof -
  let ?out = "[ [0.1, 0.9], [0.8, 0.2::real] ]"
  let ?hits = "{b. b < length ?out \<and> (\<exists>n. is_argmax (?out ! b) n \<and> int n = [1, 0] ! b)}"
  have len: "length ?out = length [1, 0::int]" by simp
  have rows: "[] \<notin> set ?out" by simp
  note inst = accuracy_counts_argmax_hits [of ?out "[1, 0]"]
  from inst have "accuracy ?out [1, 0] = Some 2" by (rule conjunct1)
  moreover from inst len rows have "accuracy ?out [1, 0] = Some (int (card ?hits))"
    by blast
  ultimately have "int (card ?hits) = 2" by (simp only: option.inject)
  then have "card ?hits = 2" by linarith
  with len rows show ?thesis by blast
qed

lemma those_map_Some: "those (map (\<lambda>x. Some (g x)) xs) = Some (map g xs)"
  by (induction xs) auto

lemma those_nth:
  assumes "length xs = n" and "\<forall>i < n. xs ! i = Some (g i)"
  shows "those xs = Some (map g [0..<n])"
proof -
  have "xs = map (\<lambda>i. Some (g i)) [0..<n]"
    using assms by (intro nth_equalityI) auto
  then show ?thesis by (simp only: those_map_Some)
qed

lemma gather_row_replicate:
  assumes "k < length inp" and "length (inp ! k) = n"
  shows "gather_row inp (replicate n k) = Some (inp ! k)"
proof -
  let ?f = "\<lambda>(k, j). if k < length inp \<and> j < length (inp ! k) then Some (inp ! k ! j) else None"
  have "those (map ?f (zip (replicate n k) [0..<n])) = Some (map (\<lambda>j. inp ! k ! j) [0..<n])"
    by (rule those_nth) (use assms in auto)
  moreover have "map (\<lambda>j. inp ! k ! j) [0..<n] = inp ! k"
    using assms(2) by (intro nth_equalityI) auto
  ultimately show ?thesis by (simp add: gather_row_def)
qed

lemma gather_view_expand:
  assumes "tensor_shape t b c n" and "length idx = b" and "\<forall>i < b. idx ! i < c"
  shows "gather_view t (expand_index n idx) = Some (map (\<lambda>i. t ! i ! (idx ! i)) [0..<b])"
proof -
  let ?h = "\<lambda>(inp_b, idx_b). those (map (gather_row inp_b) idx_b)"
  from assms(1) have len: "length t = b"
    and shape: "\<And>i. i < b \<Longrightarrow> length (t ! i) = c \<and> (\<forall>r \<in> set (t ! i). length r = n)"
    by (auto simp: tensor_shape_def)
  have "those (map ?h (zip t (expand_index n idx))) =
          Some (map (\<lambda>i. [t ! i ! (idx ! i)]) [0..<b])"
  proof (rule those_nth)
    show "length (map ?h (zip t (expand_index n idx))) = b"
      using len assms(2) by (simp add: expand_index_def)
    show "\<forall>i < b. map ?h (zip t (expand_index n idx)) ! i = Some [t ! i ! (idx ! i)]"
    proof (intro allI impI)
      fix i assume i: "i < b"
      with assms(3) shape [OF i] have k: "idx ! i < length (t ! i)"
        and "length (t ! i ! (idx ! i)) = n"
        by auto
      then have "gather_row (t ! i) (replicate n (idx ! i)) = Some (t ! i ! (idx ! i))"
        by (rule gather_row_replicate)
      with i len assms(2)
      show "map ?h (zip t (expand_index n idx)) ! i = Some [t ! i ! (idx ! i)]"
        by (simp add: expand_index_def)
    qed
  qed
  with len assms(2) show ?thesis
    by (simp add: gather_view_def gather_dim1_def expand_index_def comp_def)
qed

lemma size2_shape:
  assumes "tensor_shape t b c n" and "0 < b" and "0 < c"
  shows "size2 t = n"
proof -
  from assms(1,2) obtain m ms where t: "t = m # ms" by (cases t) (auto simp: tensor_shape_def)
  with assms(1,3) obtain r rs where m: "m = r # rs" by (cases m) (auto simp: tensor_shape_def)
  from assms(1) t m have "length r = n" by (auto simp: tensor_shape_def)
  with t m show ?thesis by (simp add: size2_def)
qed

lemma eval_select_argmax:
  assumes ids: "tensor_shape vp_ids b c n" and msk: "tensor_shape vp_mask b c n"
    and len: "length logits = b" and rows: "\<forall>row \<in> set logits. length row = c" and c: "0 < c"
  shows "\<exists>idx. length idx = b \<and> (\<forall>i < b. is_argmax (logits ! i) (idx ! i)) \<and>
           eval_select logits vp_ids vp_mask =
             Some (map (\<lambda>i. vp_ids ! i ! (idx ! i)) [0..<b],
                   map (\<lambda>i. vp_mask ! i ! (idx ! i)) [0..<b])"
proof -
  from rows c have "[] \<notin> set logits" by auto
  from those_map_argmax [OF this] len
  obtain idx where idx: "those (map torch_argmax logits) = Some idx" "length idx = b"
    "\<forall>i < b. is_argmax (logits ! i) (idx ! i)"
    by auto
  have bound: "\<forall>i < b. idx ! i < c"
    using idx(3) rows len by (auto simp: is_argmax_def)
  show ?thesis
  proof (cases "b = 0")
    case True
    with len idx(2) ids msk have "logits = []" "idx = []" "vp_ids = []" "vp_mask = []"
      by (auto simp: tensor_shape_def)
    with True show ?thesis
      by (simp add: eval_select_def gather_view_def gather_dim1_def expand_index_def size2_def)
  next
    case False
    then have "size2 vp_ids = n" using size2_shape [OF ids _ c] by simp
    with idx gather_view_expand [OF ids idx(2) bound] gather_view_expand [OF msk idx(2) bound]
    show ?thesis by (auto simp: eval_select_def)
  qed
qed

text \<open>
  C5. In the evaluation loop, for logits of one row of \<open>c > 0\<close> choices per example and
  VP tensors of shape \<open>b \<times> c \<times> n\<close>, the ids and the mask handed to the adversary are, for
  every example, the slices at the argmax of that example's logits, and nothing else:
  each row has the \<open>n\<close> entries of the slice, without a leading confidence position.
\<close>

theorem eval_select_uses_argmax:
  assumes "tensor_shape vp_ids b c n" and "tensor_shape vp_mask b c n"
    and "length logits = b" and "\<forall>row \<in> set logits. length row = c" and "0 < c"
  shows "\<exists>idx. length idx = b \<and> (\<forall>i < b. is_argmax (logits ! i) (idx ! i)) \<and>
           eval_select logits vp_ids vp_mask =
             Some (map (\<lambda>i. vp_ids ! i ! (idx ! i)) [0..<b],
                   map (\<lambda>i. vp_mask ! i ! (idx ! i)) [0..<b])"
  using assms by (rule eval_select_argmax)

theorem eval_select_uses_argmax_witness:
  "tensor_shape batch_vp_ids 2 4 2 \<and> tensor_shape batch_vp_mask 2 4 2 \<and>
   length batch_logits = 2 \<and> map length batch_logits = [4, 4] \<and>
   (\<exists>idx. length idx = 2 \<and> (\<forall>i < 2. is_argmax (batch_logits ! i) (idx ! i)) \<and>
      eval_select batch_logits batch_vp_ids batch_vp_mask =
        Some (map (\<lambda>i. batch_vp_ids ! i ! (idx ! i)) [0..<2],
              map (\<lambda>i. batch_vp_mask ! i ! (idx ! i)) [0..<2])) \<and>
   eval_select batch_logits batch_vp_ids batch_vp_mask =
     Some ([ [3, 4], [9, 10] ], [ [1, 0], [1, 1] ])"
proof -
  have ids: "tensor_shape batch_vp_ids 2 4 2"
    by (simp add: tensor_shape_def batch_vp_ids_def)
  have msk: "tensor_shape batch_vp_mask 2 4 2"
    by (simp add: tensor_shape_def batch_vp_mask_def)
  have len: "length batch_logits = 2" by (simp add: batch_logits_def)
  have rows: "\<forall>row \<in> set batch_logits. length row = 4" by (simp add: batch_logits_def)
  have direct: "eval_select batch_logits batch_vp_ids batch_vp_mask =
      Some ([ [3, 4], [9, 10] ], [ [1, 0], [1, 1] ])"
    by (simp add: eval_select_def batch_logits_def batch_vp_ids_def batch_vp_mask_def
        torch_argmax_def torch_max_def size2_def expand_index_def gather_view_def
        gather_dim1_def gather_row_def)
  have lens: "map length batch_logits = [4, 4]" by (simp add: batch_logits_def)
  from eval_select_uses_argmax [OF ids msk len rows] ids msk len lens direct
  show ?thesis by simp
qed

text \<open>
  C1 at a batch of one example with the logits \<open>[0, 0, 0, 0]\<close>. The maximum softmax
  probability of the four logits is 1/4, and the value the claim describes is 25. The
  training loop takes the softmax of the tensor of the per-example maximal logits, which
  has one entry here, so the value it puts in front of the gathered ids is 100. The
  mask entry in front is 1.
\<close>

theorem train_select_confidence_over_batch:
  "train_select [ [0, 0, 0, 0] ] [ [ [5, 6], [7, 8], [9, 10], [11, 12] ] ]
       [ [ [1, 1], [1, 0], [1, 1], [1, 0] ] ]
     = Some ([ [100, 5, 6] ], [ [1, 1, 1] ]) \<and>
   max_softmax_percent [0, 0, 0, 0] = 25"
  by (simp add: train_select_def torch_max_def softmax_def to_long_def size2_def
      expand_index_def gather_view_def gather_dim1_def gather_row_def
      max_softmax_percent_def)

lemma zip_map_both:
  "map (\<lambda>(p, a). p - alpha * a) (zip (map f ps) (map f qs)) =
   map (\<lambda>(p, a). f p - alpha * f a) (zip ps qs)"
  by (induction ps qs rule: list_induct2') simp_all

lemma step_losses_closed_form:
  "step_losses args loss_pred loss_adv =
     (map (\<lambda>x. loss_factor args * x) (model_loss args loss_pred),
      map (\<lambda>x. loss_factor args * x) (model_loss args loss_adv),
      map (\<lambda>(p, a). loss_factor args * (p - alpha * a))
        (zip (model_loss args loss_pred) (model_loss args loss_adv)))"
proof -
  let ?P = "model_loss args loss_pred" and ?A = "model_loss args loss_adv"
  let ?c = "loss_factor args"
  have steps: "step_losses args loss_pred loss_adv =
      (map (\<lambda>x. ?c * x) ?P, map (\<lambda>x. ?c * x) ?A,
       map (\<lambda>(p, a). p - alpha * a) (zip (map (\<lambda>x. ?c * x) ?P) (map (\<lambda>x. ?c * x) ?A)))"
  proof (cases "fp16 args \<and> loss_scale args \<noteq> 1")
    case scaled: True
    show ?thesis
    proof (cases "gradient_accumulation_steps args > 1")
      case True
      with scaled show ?thesis
        by (simp add: step_losses_def model_loss_def loss_factor_def tensor_mean_def
            o_def mult.commute)
    next
      case False
      with scaled show ?thesis
        by (simp add: step_losses_def model_loss_def loss_factor_def tensor_mean_def
            o_def mult.commute)
    qed
  next
    case plain: False
    show ?thesis
    proof (cases "gradient_accumulation_steps args > 1")
      case True
      with plain show ?thesis
        by (simp add: step_losses_def model_loss_def loss_factor_def tensor_mean_def o_def)
    next
      case False
      have one: "map ((*) (1::real)) xs = xs" for xs
        by (induction xs) simp_all
      from plain False show ?thesis
        by (simp add: step_losses_def model_loss_def loss_factor_def tensor_mean_def one)
    qed
  qed
  have "map (\<lambda>(p, a). p - alpha * a) (zip (map (\<lambda>x. ?c * x) ?P) (map (\<lambda>x. ?c * x) ?A)) =
        map (\<lambda>(p, a). ?c * p - alpha * (?c * a)) (zip ?P ?A)"
    by (rule zip_map_both)
  also have "\<dots> = map (\<lambda>(p, a). ?c * (p - alpha * a)) (zip ?P ?A)"
    by (simp add: algebra_simps)
  finally show ?thesis using steps by simp
qed


lemma loss_factor_nonzero:
  "\<not> (fp16 args \<and> loss_scale args = 0) \<Longrightarrow> loss_factor args \<noteq> 0"
  by (auto simp: loss_factor_def)

text \<open>
  C6, as amended. Unless reduced precision is configured with the loss scale 0, the
  loss handed to \<open>backward\<close> for the predictor update is, entry by entry,
  \<open>c * (L_p - alpha * L_a)\<close> with \<open>alpha = 1\<close>, where \<open>L_p\<close> and \<open>L_a\<close> are the losses
  the two models return (their mean over the replicas on several devices) and \<open>c\<close> is
  the non-zero factor of the configuration: the loss scale under reduced precision,
  over the number of accumulation steps. The two losses kept for the history carry the
  same factor. With full precision and no accumulation \<open>c = 1\<close>, and the loss is
  \<open>L_p - alpha * L_a\<close> itself.
\<close>

theorem combined_objective:
  assumes "\<not> (fp16 args \<and> loss_scale args = 0)"
  shows "step_losses args loss_pred loss_adv =
           (map (\<lambda>x. loss_factor args * x) (model_loss args loss_pred),
            map (\<lambda>x. loss_factor args * x) (model_loss args loss_adv),
            map (\<lambda>(p, a). loss_factor args * (p - alpha * a))
              (zip (model_loss args loss_pred) (model_loss args loss_adv))) \<and>
         alpha = 1 \<and> loss_factor args \<noteq> 0 \<and>
         (\<not> fp16 args \<and> gradient_accumulation_steps args \<le> 1 \<longrightarrow> loss_factor args = 1)"
proof -
  have "\<not> fp16 args \<and> gradient_accumulation_steps args \<le> 1 \<longrightarrow> loss_factor args = 1"
    by (simp add: loss_factor_def)
  with step_losses_closed_form [of args loss_pred loss_adv] loss_factor_nonzero [OF assms]
  show ?thesis by (simp add: alpha_def)
qed

theorem combined_objective_witness:
  "\<not> (fp16 accumulating_args \<and> loss_scale accumulating_args = 0) \<and>
   loss_factor accumulating_args = 1 / 2 \<and>
   step_losses accumulating_args [4] [2] = ([2], [1], [1])"
proof -
  have pre: "\<not> (fp16 accumulating_args \<and> loss_scale accumulating_args = 0)"
    by (simp add: accumulating_args_def)
  have factor: "loss_factor accumulating_args = 1 / 2"
    by (simp add: loss_factor_def accumulating_args_def)
  have losses: "model_loss accumulating_args [4] = [4]" "model_loss accumulating_args [2] = [2]"
    by (simp_all add: model_loss_def accumulating_args_def)
  from combined_objective [OF pre, of "[4]" "[2]"]
  have "step_losses accumulating_args [4] [2] = ([2], [1], [1])"
    by (simp add: factor losses alpha_def)
  with pre factor show ?thesis by simp
qed

text \<open>
  C6 as stated fails when gradients are accumulated over two steps: the models return
  the losses 4 and 2, so \<open>L_p - alpha * L_a\<close> is 2, and the loss handed to \<open>backward\<close>
  is 1.
\<close>

theorem combined_objective_accumulation_counterexample:
  "(4::real) - alpha * 2 = 2 \<and>
   snd (snd (step_losses accumulating_args [4] [2])) = [1] \<and>
   snd (snd (step_losses accumulating_args [4] [2])) \<noteq> [4 - alpha * 2]"
  by (simp add: step_losses_def accumulating_args_def alpha_def)

end
